theory Spec2Isabelle
  imports Complex_Main "HOL-Library.Log_Nat"
begin

section \<open>Word-code alignment of \<^verbatim>\<open>convert_speaker_pt_to_json.py\<close>\<close>

text \<open>
  The development embeds the two functions of the script that carry its logic,
  \<^verbatim>\<open>_distribute_codes\<close> and \<^verbatim>\<open>_build_words_from_codes\<close>. Python integers are
  \<open>int\<close>. A Python float is the rational number it denotes, and every float operation
  of the source rounds its exact result to the nearest binary64 value, ties to even,
  with the rounding written out below. Every \<^verbatim>\<open>raise\<close> of the source is a value of
  the type \<open>error\<close>; a loop that does not return is the value \<open>None\<close>.
\<close>

subsection \<open>Binary64 arithmetic\<close>

definition round_half_even :: "rat \<Rightarrow> int" where
  "round_half_even x =
     (let n = \<lfloor>x\<rfloor>; r = x - of_int n
      in if r < 1 / 2 then n else if 1 / 2 < r then n + 1 else if even n then n else n + 1)"

text \<open>\<open>floor_log2 x\<close> is the integer \<open>e\<close> with \<open>2 powi e \<le> x < 2 powi (e + 1)\<close>, for \<open>0 < x\<close>.\<close>

definition floor_log2 :: "rat \<Rightarrow> int" where
  "floor_log2 x = (if 1 \<le> x then bitlen \<lfloor>x\<rfloor> - 1 else - bitlen (\<lceil>1 / x\<rceil> - 1))"

text \<open>
  The binary64 value nearest to \<open>x\<close>: 53 significant bits, ties to even, and multiples
  of \<open>2 powi (-1074)\<close> in the subnormal range. The exponent has no upper bound here; the
  two conversions from integers below check the bound where CPython does.
\<close>

definition fl :: "rat \<Rightarrow> rat" where
  "fl x =
     (if x = 0 then 0
      else let e = max (floor_log2 \<bar>x\<bar> - 52) (- 1074)
           in sgn x * of_int (round_half_even (\<bar>x\<bar> / 2 powi e)) * 2 powi e)"

datatype error =
    NoCodes              \<comment> \<open>ValueError: Speaker checkpoint did not contain any codes.\<close>
  | EmptyTokens          \<comment> \<open>ValueError: Transcript token list is empty.\<close>
  | InvalidWeights       \<comment> \<open>ValueError: Transcript token weights are invalid.\<close>
  | NonPositiveSegment   \<comment> \<open>ValueError: Code distribution resulted in non-positive segment length.\<close>
  | DistributionFailed   \<comment> \<open>ValueError: Failed to distribute codes across transcript tokens.\<close>
  | OverflowError        \<comment> \<open>raised by CPython when an integer result does not fit a float\<close>

text \<open>
  \<^verbatim>\<open>a / b\<close> on two integers: the quotient correctly rounded, OverflowError when the
  rounded quotient is beyond the largest float. The callers have checked \<open>b \<noteq> 0\<close>.
\<close>

definition py_truediv :: "int \<Rightarrow> int \<Rightarrow> error + rat" where
  "py_truediv a b =
     (let q = fl (of_int a / of_int b)
      in if 2 ^ 1024 \<le> \<bar>q\<bar> then Inl OverflowError else Inr q)"

text \<open>The implicit conversion of an integer operand in \<^verbatim>\<open>count / FRAME_RATE_HZ\<close>.\<close>

definition py_float :: "int \<Rightarrow> error + rat" where
  "py_float n =
     (let q = fl (of_int n)
      in if 2 ^ 1024 \<le> \<bar>q\<bar> then Inl OverflowError else Inr q)"

text \<open>
  \<^verbatim>\<open>round(x, 2)\<close> on a float: the exact value of \<open>x\<close> rounded to two decimals, ties to
  even, and the result converted back to the nearest float.
\<close>

definition py_round2 :: "rat \<Rightarrow> rat" where
  "py_round2 x = fl (of_int (round_half_even (x * 100)) / 100)"

definition FRAME_RATE_HZ :: rat where
  "FRAME_RATE_HZ = 50"

subsection \<open>Python list operations\<close>

text \<open>
  \<^verbatim>\<open>sorted(xs, key=key, reverse=reverse)\<close>. CPython's sort is stable; with
  \<^verbatim>\<open>reverse=True\<close> it reverses the list, sorts it ascending and stably, and reverses
  the result, so that equal keys keep their original order in both directions.
\<close>

definition py_sorted :: "('a \<Rightarrow> 'k::linorder) \<Rightarrow> bool \<Rightarrow> 'a list \<Rightarrow> 'a list" where
  "py_sorted key reverse xs =
     (if reverse then rev (sort_key key (rev xs)) else sort_key key xs)"

text \<open>\<^verbatim>\<open>xs.pop(i)\<close> for \<open>i\<close> in range: the list without its element at \<open>i\<close>.\<close>

definition py_pop :: "'a list \<Rightarrow> nat \<Rightarrow> 'a list" where
  "py_pop xs i = take i xs @ drop (Suc i) xs"

text \<open>\<^verbatim>\<open>xs[start:stop]\<close>: negative bounds count from the end, and both are clamped.\<close>

definition py_slice :: "'a list \<Rightarrow> int \<Rightarrow> int \<Rightarrow> 'a list" where
  "py_slice xs start stop =
     (let n = int (length xs);
          lo = (if start < 0 then max 0 (start + n) else min start n);
          hi = (if stop < 0 then max 0 (stop + n) else min stop n)
      in take (nat (hi - lo)) (drop (nat lo) xs))"

subsection \<open>\<^verbatim>\<open>_distribute_codes\<close>\<close>

text \<open>
  \<^verbatim>\<open>shares = [weight * total_codes / total_weight for weight in weights]\<close>: the first
  division that overflows raises.
\<close>

fun shares_of :: "int \<Rightarrow> int \<Rightarrow> int list \<Rightarrow> error + rat list" where
  "shares_of total_codes total_weight [] = Inr []"
| "shares_of total_codes total_weight (weight # weights) =
     (case py_truediv (weight * total_codes) total_weight of
        Inl e \<Rightarrow> Inl e
      | Inr share \<Rightarrow>
          (case shares_of total_codes total_weight weights of
             Inl e \<Rightarrow> Inl e
           | Inr shares \<Rightarrow> Inr (share # shares)))"

text \<open>\<^verbatim>\<open>counts = [max(1, int(math.floor(share))) for share in shares]\<close>\<close>

definition initial_counts :: "rat list \<Rightarrow> int list" where
  "initial_counts shares = map (\<lambda>share. max 1 \<lfloor>share\<rfloor>) shares"

text \<open>
  \<^verbatim>\<open>fractional = [share - math.floor(share) for share in shares]\<close>: a float minus an
  integer, which is a float subtraction.
\<close>

definition fractional_of :: "rat list \<Rightarrow> rat list" where
  "fractional_of shares = map (\<lambda>share. fl (share - fl (of_int \<lfloor>share\<rfloor>))) shares"

text \<open>
  \<^verbatim>\<open>indexed = sorted(enumerate(fractional), key=lambda item: item[1], reverse=...)\<close>
  and \<^verbatim>\<open>idx_list = [index for index, _ in indexed]\<close>.
\<close>

definition rank_indices :: "bool \<Rightarrow> rat list \<Rightarrow> nat list" where
  "rank_indices reverse fractional =
     map fst (py_sorted snd reverse (enumerate 0 fractional))"

record loop_state =
  counts :: "int list"
  idx_list :: "nat list"
  remaining :: int
  pointer :: nat

text \<open>
  One iteration of the \<^verbatim>\<open>while\<close> loop, entered with \<^verbatim>\<open>remaining > 0\<close> and a
  non-empty \<^verbatim>\<open>idx_list\<close>: the index under the pointer is dropped from the list when
  the step would leave its count at zero or below (\<^verbatim>\<open>continue\<close>), and otherwise its
  count takes the step.
\<close>

definition loop_body :: "int \<Rightarrow> loop_state \<Rightarrow> loop_state" where
  "loop_body step st =
     (let pos = pointer st mod length (idx_list st);
          idx = idx_list st ! pos;
          proposed = counts st ! idx + step
      in if proposed \<le> 0
         then st\<lparr>idx_list := py_pop (idx_list st) pos\<rparr>
         else st\<lparr>counts := (counts st)[idx := proposed],
                 remaining := remaining st - 1,
                 pointer := pointer st + 1\<rparr>)"

text \<open>The \<^verbatim>\<open>while remaining > 0 and idx_list\<close> loop; \<open>None\<close> when it does not return.\<close>

partial_function (option) redistribute :: "int \<Rightarrow> loop_state \<Rightarrow> loop_state option" where
  "redistribute step st =
     (if 0 < remaining st \<and> idx_list st \<noteq> []
      then redistribute step (loop_body step st)
      else Some st)"

declare redistribute.simps [code]

text \<open>The block under \<^verbatim>\<open>if delta != 0\<close>: the counts after the redistribution.\<close>

definition rebalance :: "int \<Rightarrow> rat list \<Rightarrow> int list \<Rightarrow> int list option" where
  "rebalance total_codes shares cnts =
     (let delta = total_codes - sum_list cnts
      in if delta \<noteq> 0 then
           (case redistribute (if 0 < delta then 1 else - 1)
                   \<lparr>counts = cnts,
                    idx_list = rank_indices (0 < delta) (fractional_of shares),
                    remaining = \<bar>delta\<bar>,
                    pointer = 0\<rparr> of
              None \<Rightarrow> None
            | Some st \<Rightarrow> Some (counts st))
         else Some cnts)"

text \<open>
  The lines after the loop: the residue goes to \<^verbatim>\<open>counts[-1]\<close>, then the two checks.
  The list is never empty here, \<^verbatim>\<open>weights\<close> being non-empty.
\<close>

definition finish :: "int \<Rightarrow> int list \<Rightarrow> error + int list" where
  "finish total_codes cnts =
     (let adjustment = total_codes - sum_list cnts;
          cnts' = (if adjustment \<noteq> 0
                   then cnts[length cnts - 1 := last cnts + adjustment] else cnts)
      in if list_ex (\<lambda>count. count \<le> 0) cnts' then Inl NonPositiveSegment
         else if sum_list cnts' \<noteq> total_codes then Inl DistributionFailed
         else Inr cnts')"

definition distribute_codes :: "int \<Rightarrow> int list \<Rightarrow> (error + int list) option" where
  "distribute_codes total_codes weights =
     (if total_codes \<le> 0 then Some (Inl NoCodes)
      else if weights = [] then Some (Inl EmptyTokens)
      else if sum_list weights \<le> 0 then Some (Inl InvalidWeights)
      else case shares_of total_codes (sum_list weights) weights of
             Inl e \<Rightarrow> Some (Inl e)
           | Inr shares \<Rightarrow>
               (case rebalance total_codes shares (initial_counts shares) of
                  None \<Rightarrow> None
                | Some cnts \<Rightarrow> Some (finish total_codes cnts)))"

subsection \<open>\<^verbatim>\<open>_build_words_from_codes\<close>\<close>

record word_record =
  word :: string
  duration :: rat
  codes :: "int list"

text \<open>
  \<^verbatim>\<open>duration = round(count / FRAME_RATE_HZ, 2)\<close>, replaced by
  \<^verbatim>\<open>round(1.0 / FRAME_RATE_HZ, 2)\<close> when it is not positive.
\<close>

definition raw_duration :: "int \<Rightarrow> error + rat" where
  "raw_duration count =
     (case py_float count of
        Inl e \<Rightarrow> Inl e
      | Inr c \<Rightarrow> Inr (py_round2 (fl (c / FRAME_RATE_HZ))))"

definition duration_of :: "int \<Rightarrow> error + rat" where
  "duration_of count =
     (case raw_duration count of
        Inl e \<Rightarrow> Inl e
      | Inr d \<Rightarrow> Inr (if d \<le> 0 then py_round2 (fl (1 / FRAME_RATE_HZ)) else d))"

text \<open>
  The \<^verbatim>\<open>for token, count in zip(transcript_tokens, counts)\<close> loop, from the current
  \<^verbatim>\<open>offset\<close>; the records are those appended from here on.
\<close>

fun build_loop :: "int list \<Rightarrow> int \<Rightarrow> (string \<times> int) list \<Rightarrow> error + word_record list" where
  "build_loop cs offset [] = Inr []"
| "build_loop cs offset ((token, count) # rest) =
     (case duration_of count of
        Inl e \<Rightarrow> Inl e
      | Inr d \<Rightarrow>
          (case build_loop cs (offset + count) rest of
             Inl e \<Rightarrow> Inl e
           | Inr ws \<Rightarrow>
               Inr (\<lparr>word = token, duration = d,
                     codes = py_slice cs offset (offset + count)\<rparr> # ws)))"

definition build_words_from_codes ::
    "int list \<Rightarrow> string list \<Rightarrow> (error + word_record list) option" where
  "build_words_from_codes cs transcript_tokens =
     (let weights = map (\<lambda>token. max 1 (int (length token))) transcript_tokens
      in case distribute_codes (int (length cs)) weights of
           None \<Rightarrow> None
         | Some (Inl e) \<Rightarrow> Some (Inl e)
         | Some (Inr cnts) \<Rightarrow> Some (build_loop cs 0 (zip transcript_tokens cnts)))"

subsection \<open>Auxiliary notions of the proofs\<close>

text \<open>The quantity that every iteration of the loop decreases.\<close>

definition loop_measure :: "loop_state \<Rightarrow> nat" where
  "loop_measure st = nat (remaining st) + length (idx_list st)"

section \<open>The redistribution loop\<close>

lemma length_py_pop: "i < length xs \<Longrightarrow> length (py_pop xs i) = length xs - 1"
  by (simp add: py_pop_def)

text \<open>
  An iteration either takes one unit off \<open>remaining\<close> or removes one index from
  \<open>idx_list\<close>, so the measure goes down.
\<close>

lemma loop_body_measure:
  assumes "0 < remaining st" and "idx_list st \<noteq> []"
  shows "loop_measure (loop_body step st) < loop_measure st"
proof -
  have "pointer st mod length (idx_list st) < length (idx_list st)"
    using assms(2) by simp
  then show ?thesis
    using assms by (auto simp: loop_body_def loop_measure_def Let_def length_py_pop)
qed

lemma redistribute_terminates: "\<exists>st'. redistribute step st = Some st'"
proof (induction "loop_measure st" arbitrary: st rule: less_induct)
  case less
  show ?case
  proof (cases "0 < remaining st \<and> idx_list st \<noteq> []")
    case True
    then have "loop_measure (loop_body step st) < loop_measure st"
      by (simp add: loop_body_measure)
    then obtain st' where "redistribute step (loop_body step st) = Some st'"
      using less by blast
    then show ?thesis
      using True by (subst redistribute.simps) simp
  next
    case False
    then show ?thesis
      by (subst redistribute.simps) auto
  qed
qed

text \<open>
  The invariant rule of the loop: what holds on entry and is kept by every iteration
  holds on exit, where the loop condition is false.
\<close>

lemma redistribute_invariant:
  assumes "redistribute step st = Some st'"
      and "P st"
      and "\<And>s. P s \<Longrightarrow> 0 < remaining s \<Longrightarrow> idx_list s \<noteq> [] \<Longrightarrow> P (loop_body step s)"
  shows "P st' \<and> \<not> (0 < remaining st' \<and> idx_list st' \<noteq> [])"
  using assms(1,2)
proof (induction "loop_measure st" arbitrary: st rule: less_induct)
  case less
  show ?case
  proof (cases "0 < remaining st \<and> idx_list st \<noteq> []")
    case True
    then have m: "loop_measure (loop_body step st) < loop_measure st"
      by (simp add: loop_body_measure)
    have r: "redistribute step (loop_body step st) = Some st'"
      using less.prems(1) True by (subst (asm) redistribute.simps) simp
    have "P (loop_body step st)"
      using assms(3) less.prems(2) True by blast
    then show ?thesis
      using less.hyps [OF m r] by blast
  next
    case False
    then have "st' = st"
      using less.prems(1) by (subst (asm) redistribute.simps) auto
    then show ?thesis
      using False less.prems(2) by simp
  qed
qed

lemma length_counts_loop_body: "length (counts (loop_body step st)) = length (counts st)"
  by (simp add: loop_body_def Let_def)

lemma redistribute_length:
  assumes "redistribute step st = Some st'"
  shows "length (counts st') = length (counts st)"
  using redistribute_invariant [OF assms, where P = "\<lambda>s. length (counts s) = length (counts st)"]
  by (simp add: length_counts_loop_body)

lemma rebalance_terminates: "\<exists>cnts'. rebalance total_codes shares cnts = Some cnts'"
proof -
  obtain st' where "redistribute (if 0 < total_codes - sum_list cnts then 1 else - 1)
       \<lparr>counts = cnts,
        idx_list = rank_indices (0 < total_codes - sum_list cnts) (fractional_of shares),
        remaining = \<bar>total_codes - sum_list cnts\<bar>, pointer = 0\<rparr> = Some st'"
    using redistribute_terminates by blast
  then show ?thesis
    by (simp add: rebalance_def Let_def)
qed

lemma rebalance_length:
  assumes "rebalance total_codes shares cnts = Some cnts'"
  shows "length cnts' = length cnts"
  using assms
  by (auto simp: rebalance_def Let_def split: if_splits option.splits dest: redistribute_length)

lemma distribute_codes_returns_or_raises: "\<exists>r. distribute_codes total_codes weights = Some r"
proof (cases "shares_of total_codes (sum_list weights) weights")
  case (Inl e)
  then show ?thesis
    by (simp add: distribute_codes_def)
next
  case (Inr shares)
  obtain cnts where "rebalance total_codes shares (initial_counts shares) = Some cnts"
    using rebalance_terminates by blast
  with Inr show ?thesis
    by (simp add: distribute_codes_def)
qed

text \<open>
  Claim C10. The cyclic redistribution loop of \<^verbatim>\<open>_distribute_codes\<close> terminates: from
  every loop state, whatever the step, the loop returns a final state, and so
  \<^verbatim>\<open>_distribute_codes\<close> itself returns or raises on every total and every weight list,
  those that pass the initial validation included. The reason is the one the claim
  gives, \<open>loop_body_measure\<close>: an iteration decrements \<open>remaining\<close> or shortens
  \<open>idx_list\<close>.
\<close>

theorem redistribution_loop_terminates:
  "(\<exists>st'. redistribute step st = Some st')
   \<and> (\<exists>r. distribute_codes total_codes weights = Some r)"
  using redistribute_terminates distribute_codes_returns_or_raises by blast

section \<open>The lines after the loop\<close>

lemma shares_of_length:
  "shares_of total_codes total_weight weights = Inr shares \<Longrightarrow> length shares = length weights"
  by (induction weights arbitrary: shares) (auto split: sum.splits)

lemma sum_list_update_last:
  fixes cs :: "int list"
  assumes "cs \<noteq> []"
  shows "sum_list (cs[length cs - 1 := last cs + a]) = sum_list cs + a"
  using assms by (induction cs rule: rev_induct) (simp_all add: list_update_append)

lemma update_last_conv:
  assumes "cs \<noteq> []"
  shows "cs[length cs - 1 := v] = butlast cs @ [v]"
  using assms by (induction cs rule: rev_induct) (simp_all add: list_update_append)

lemma list_ex_nonpos_iff:
  fixes cs :: "int list"
  shows "list_ex (\<lambda>count. count \<le> 0) cs \<longleftrightarrow> \<not> list_all (\<lambda>count. 1 \<le> count) cs"
  by (induction cs) auto

lemma finish_Inr:
  assumes "finish total_codes cnts = Inr out"
  shows "sum_list out = total_codes \<and> list_all (\<lambda>count. 1 \<le> count) out
         \<and> length out = length cnts"
proof -
  define cnts' where "cnts' = (if total_codes - sum_list cnts \<noteq> 0
      then cnts[length cnts - 1 := last cnts + (total_codes - sum_list cnts)] else cnts)"
  have f: "finish total_codes cnts =
             (if list_ex (\<lambda>count. count \<le> 0) cnts' then Inl NonPositiveSegment
              else if sum_list cnts' \<noteq> total_codes then Inl DistributionFailed
              else Inr cnts')"
    by (simp add: finish_def cnts'_def Let_def)
  have "out = cnts'" and "\<not> list_ex (\<lambda>count. count \<le> 0) cnts'"
    and "sum_list cnts' = total_codes"
    using assms unfolding f by (auto split: if_splits)
  moreover have "length cnts' = length cnts"
    by (simp add: cnts'_def)
  ultimately show ?thesis
    by (simp add: list_ex_nonpos_iff)
qed

lemma distribute_codes_Inr:
  assumes "distribute_codes total_codes weights = Some (Inr out)"
  shows "sum_list out = total_codes \<and> list_all (\<lambda>count. 1 \<le> count) out
         \<and> length out = length weights"
proof -
  from assms obtain shares cnts where
    s: "shares_of total_codes (sum_list weights) weights = Inr shares"
    and r: "rebalance total_codes shares (initial_counts shares) = Some cnts"
    and f: "finish total_codes cnts = Inr out"
    by (auto simp: distribute_codes_def split: if_splits sum.splits option.splits)
  have "length cnts = length weights"
    using rebalance_length [OF r] shares_of_length [OF s] by (simp add: initial_counts_def)
  then show ?thesis
    using finish_Inr [OF f] by simp
qed

lemma length_le_sum_list:
  fixes cs :: "int list"
  shows "list_all (\<lambda>count. 1 \<le> count) cs \<Longrightarrow> int (length cs) \<le> sum_list cs"
  by (induction cs) auto

text \<open>What the lines after the loop return, with the last count written as list surgery.\<close>

lemma finish_absorb:
  assumes "cnts \<noteq> []"
  shows "finish total_codes cnts =
           (let absorbed = (if sum_list cnts \<noteq> total_codes
                            then butlast cnts @ [last cnts + (total_codes - sum_list cnts)]
                            else cnts)
            in if list_ex (\<lambda>count. count \<le> 0) absorbed then Inl NonPositiveSegment
               else Inr absorbed)"
proof (cases "sum_list cnts = total_codes")
  case True
  then show ?thesis
    by (simp add: finish_def)
next
  case False
  have "sum_list (cnts[length cnts - 1 := last cnts + (total_codes - sum_list cnts)])
          = total_codes"
    using sum_list_update_last [OF assms] by simp
  then show ?thesis
    using False update_last_conv [OF assms] by (simp add: finish_def Let_def)
qed

lemma finish_infeasible:
  assumes "cnts \<noteq> []" and "total_codes < int (length cnts)"
  shows "finish total_codes cnts = Inl NonPositiveSegment"
proof (rule ccontr)
  assume "finish total_codes cnts \<noteq> Inl NonPositiveSegment"
  then obtain out where "finish total_codes cnts = Inr out"
    unfolding finish_absorb [OF assms(1)] by (auto simp: Let_def split: if_splits)
  then have "sum_list out = total_codes \<and> list_all (\<lambda>count. 1 \<le> count) out
    \<and> length out = length cnts"
    by (rule finish_Inr)
  then show False
    using length_le_sum_list [of out] assms(2) by simp
qed

lemma distribute_codes_infeasible:
  assumes "weights \<noteq> []" and "total_codes < int (length weights)"
  shows "\<exists>e. distribute_codes total_codes weights = Some (Inl e)"
proof (cases "shares_of total_codes (sum_list weights) weights")
  case (Inl e)
  then show ?thesis
    by (simp add: distribute_codes_def)
next
  case (Inr shares)
  obtain cnts where r: "rebalance total_codes shares (initial_counts shares) = Some cnts"
    using rebalance_terminates by blast
  have len: "length cnts = length weights"
    using rebalance_length [OF r] shares_of_length [OF Inr] by (simp add: initial_counts_def)
  then have "cnts \<noteq> []" and "total_codes < int (length cnts)"
    using assms by auto
  then have "finish total_codes cnts = Inl NonPositiveSegment"
    by (rule finish_infeasible)
  then show ?thesis
    using Inr r by (simp add: distribute_codes_def)
qed


text \<open>
  Claim C1 (exactness). For every total of at least one and every non-empty weight list
  with all weights at least one, when \<^verbatim>\<open>_distribute_codes\<close> returns a list, the
  segment lengths in it sum to the total exactly.
\<close>

theorem distribute_codes_exactness:
  assumes "1 \<le> total_codes"
      and "weights \<noteq> []"
      and "list_all (\<lambda>weight. 1 \<le> weight) weights"
      and "distribute_codes total_codes weights = Some (Inr segment_lengths)"
  shows "sum_list segment_lengths = total_codes"
  using distribute_codes_Inr [OF assms(4)] by simp

text \<open>
  Claim C2 (positivity). Under the same conditions, when \<^verbatim>\<open>_distribute_codes\<close>
  returns a list, every element of it is at least one: no word gets zero codes.
\<close>

theorem distribute_codes_positivity:
  assumes "1 \<le> total_codes"
      and "weights \<noteq> []"
      and "list_all (\<lambda>weight. 1 \<le> weight) weights"
      and "distribute_codes total_codes weights = Some (Inr segment_lengths)"
  shows "list_all (\<lambda>segment_length. 1 \<le> segment_length) segment_lengths"
  using distribute_codes_Inr [OF assms(4)] by simp

section \<open>Slicing the codes\<close>

lemma py_slice_forward:
  assumes "0 \<le> offset" and "0 \<le> count" and "offset + count \<le> int (length cs)"
  shows "py_slice cs offset (offset + count) = take (nat count) (drop (nat offset) cs)"
  using assms by (simp add: py_slice_def Let_def min_def)

lemma build_loop_concat:
  assumes "build_loop cs offset zs = Inr ws"
      and "0 \<le> offset"
      and "list_all (\<lambda>z. 0 \<le> snd z) zs"
      and "offset + sum_list (map snd zs) \<le> int (length cs)"
  shows "concat (map codes ws) = take (nat (sum_list (map snd zs))) (drop (nat offset) cs)"
  using assms
proof (induction zs arbitrary: offset ws)
  case Nil
  then show ?case by simp
next
  case (Cons z zs)
  obtain token count where z: "z = (token, count)"
    by (cases z)
  from Cons.prems(1) z obtain d rest where
    rest: "build_loop cs (offset + count) zs = Inr rest"
    and ws: "ws = \<lparr>word = token, duration = d,
                     codes = py_slice cs offset (offset + count)\<rparr> # rest"
    by (auto split: sum.splits)
  have c0: "0 \<le> count" and all: "list_all (\<lambda>z. 0 \<le> snd z) zs"
    using Cons.prems(3) z by simp_all
  have s0: "0 \<le> sum_list (map snd zs)"
    using all by (induction zs) auto
  have bound: "offset + count + sum_list (map snd zs) \<le> int (length cs)"
    using Cons.prems(4) z by simp
  have ih: "concat (map codes rest)
              = take (nat (sum_list (map snd zs))) (drop (nat (offset + count)) cs)"
    using Cons.IH [OF rest _ all] Cons.prems(2) c0 bound by simp
  have "offset + count \<le> int (length cs)"
    using bound s0 by simp
  then have sl: "py_slice cs offset (offset + count) = take (nat count) (drop (nat offset) cs)"
    using Cons.prems(2) c0 by (rule py_slice_forward [rotated 2])
  have "take (nat (count + sum_list (map snd zs))) (drop (nat offset) cs)
          = take (nat count) (drop (nat offset) cs)
            @ take (nat (sum_list (map snd zs))) (drop (nat count) (drop (nat offset) cs))"
    using c0 s0 by (simp add: nat_add_distrib take_add)
  also have "drop (nat count) (drop (nat offset) cs) = drop (nat (offset + count)) cs"
    using c0 Cons.prems(2) by (simp add: nat_add_distrib add.commute)
  finally show ?case
    using ws z ih sl by simp
qed

lemma build_words_partition:
  assumes "build_words_from_codes cs transcript_tokens = Some (Inr words)"
  shows "concat (map codes words) = cs"
proof -
  let ?weights = "map (\<lambda>token. max 1 (int (length token))) transcript_tokens"
  from assms obtain cnts where
    d: "distribute_codes (int (length cs)) ?weights = Some (Inr cnts)"
    and b: "build_loop cs 0 (zip transcript_tokens cnts) = Inr words"
    by (auto simp: build_words_from_codes_def Let_def split: option.splits sum.splits)
  have sum: "sum_list cnts = int (length cs)"
    and pos: "list_all (\<lambda>count. 1 \<le> count) cnts"
    and len: "length cnts = length transcript_tokens"
    using distribute_codes_Inr [OF d] by simp_all
  have snd: "map snd (zip transcript_tokens cnts) = cnts"
    using len by simp
  have "list_all (\<lambda>z. 0 \<le> snd z) (zip transcript_tokens cnts)"
    using pos snd by (metis (mono_tags, lifting) list_all_iff list.set_map imageI order_trans zero_le_one)
  then have "concat (map codes words)
               = take (nat (sum_list (map snd (zip transcript_tokens cnts)))) (drop (nat 0) cs)"
    using build_loop_concat [OF b] snd sum by simp
  then show ?thesis
    using snd sum by simp
qed

section \<open>Evaluation on concrete inputs\<close>

lemma floor_rat_numeral_div:
  "\<lfloor>(numeral a / numeral b :: rat)\<rfloor> = numeral a div numeral b"
  by (metis floor_divide_of_int_eq of_int_numeral)

lemma ceiling_rat_numeral_div:
  "\<lceil>(numeral a / numeral b :: rat)\<rceil> = - (- numeral a div numeral b)"
  by (metis ceiling_divide_eq_div of_int_numeral)

lemma floor_rat_one_div: "\<lfloor>(1 / numeral b :: rat)\<rfloor> = 1 div numeral b"
  by (metis floor_divide_of_int_eq of_int_1 of_int_numeral)

lemma ceiling_rat_one_div: "\<lceil>(1 / numeral b :: rat)\<rceil> = - (- 1 div numeral b)"
  by (metis ceiling_divide_eq_div of_int_1 of_int_numeral)

lemma bitlen_numeral: "bitlen (numeral n) = bitlen (numeral n div 2) + 1"
  by (subst compute_bitlen) simp

lemma bitlen_one: "bitlen 1 = 1"
  by (subst compute_bitlen) simp

lemma powi_neg_numeral: "(x::rat) powi (- numeral n) = 1 / x ^ numeral n"
  by (simp add: power_int_def power_inverse divide_inverse)

lemma redistribute_continue:
  "0 < remaining st \<Longrightarrow> idx_list st \<noteq> [] \<Longrightarrow>
     redistribute step st = redistribute step (loop_body step st)"
  by (subst redistribute.simps) simp

lemma redistribute_stop:
  "\<not> (0 < remaining st \<and> idx_list st \<noteq> []) \<Longrightarrow> redistribute step st = Some st"
  by (subst redistribute.simps) auto

text \<open>The simplification rules that evaluate the model on numerals.\<close>

lemmas fl_eval = fl_def floor_log2_def round_half_even_def Let_def powi_neg_numeral
  floor_rat_numeral_div ceiling_rat_numeral_div floor_rat_one_div ceiling_rat_one_div
  bitlen_numeral bitlen_one

lemmas model_eval = fl_eval py_truediv_def py_float_def py_round2_def FRAME_RATE_HZ_def
  initial_counts_def fractional_of_def rank_indices_def py_sorted_def enumerate_eq_zip
  redistribute_continue redistribute_stop loop_body_def py_pop_def rebalance_def finish_def
  distribute_codes_def

lemma distribute_codes_scenario_D: "distribute_codes 10 [5, 5] = Some (Inr [5, 5])"
  by (simp add: model_eval)

lemma distribute_codes_scenario_A:
  "distribute_codes 10 [1, 1, 1, 1, 1] = Some (Inr [2, 2, 2, 2, 2])"
  by (simp add: model_eval)

text \<open>
  Scenario D of the specification, total 10 and weights \<open>[5, 5]\<close>, returns \<open>[5, 5]\<close>.
\<close>

theorem distribute_codes_exactness_witness:
  "(1::int) \<le> 10 \<and> [5, 5 :: int] \<noteq> [] \<and> list_all (\<lambda>weight. 1 \<le> weight) [5, 5 :: int]
   \<and> distribute_codes 10 [5, 5] = Some (Inr [5, 5]) \<and> sum_list [5, 5 :: int] = 10"
  using distribute_codes_exactness [of 10 "[5, 5]" "[5, 5]"] distribute_codes_scenario_D
  by simp

text \<open>
  Scenario A of the specification, total 10 and five weights of one, returns five twos.
\<close>

theorem distribute_codes_positivity_witness:
  "(1::int) \<le> 10 \<and> [1, 1, 1, 1, 1 :: int] \<noteq> []
   \<and> list_all (\<lambda>weight. 1 \<le> weight) [1, 1, 1, 1, 1 :: int]
   \<and> distribute_codes 10 [1, 1, 1, 1, 1] = Some (Inr [2, 2, 2, 2, 2])
   \<and> list_all (\<lambda>segment_length. 1 \<le> segment_length) [2, 2, 2, 2, 2 :: int]"
  using distribute_codes_positivity [of 10 "[1, 1, 1, 1, 1]" "[2, 2, 2, 2, 2]"]
    distribute_codes_scenario_A
  by simp

text \<open>
  Claim C3 (infeasibility). For every total of at least one and every non-empty weight
  list with all weights at least one, when there are more weights than codes
  \<^verbatim>\<open>_distribute_codes\<close> raises instead of returning; in particular it raises on
  Scenario C, total 3 and weights \<open>[5, 5, 5, 5, 5]\<close>, where the exception is the
  ValueError of the positivity check.
\<close>

theorem more_words_than_codes_raises:
  assumes "1 \<le> total_codes"
      and "weights \<noteq> []"
      and "list_all (\<lambda>weight. 1 \<le> weight) weights"
      and "total_codes < int (length weights)"
  shows "(\<exists>e. distribute_codes total_codes weights = Some (Inl e))
         \<and> distribute_codes 3 [5, 5, 5, 5, 5] = Some (Inl NonPositiveSegment)"
proof
  show "\<exists>e. distribute_codes total_codes weights = Some (Inl e)"
    using assms(2,4) by (rule distribute_codes_infeasible)
  show "distribute_codes 3 [5, 5, 5, 5, 5] = Some (Inl NonPositiveSegment)"
    by (simp add: model_eval)
qed

text \<open>
  Three words and two codes: total 2 and weights \<open>[3, 1, 4]\<close>.
\<close>

theorem more_words_than_codes_raises_witness:
  "(1::int) \<le> 2 \<and> [3, 1, 4 :: int] \<noteq> [] \<and> list_all (\<lambda>weight. 1 \<le> weight) [3, 1, 4 :: int]
   \<and> 2 < int (length [3, 1, 4 :: int])
   \<and> (\<exists>e. distribute_codes 2 [3, 1, 4] = Some (Inl e))
   \<and> distribute_codes 3 [5, 5, 5, 5, 5] = Some (Inl NonPositiveSegment)"
  using more_words_than_codes_raises [of 2 "[3, 1, 4]"] by simp

text \<open>
  Claim C5 (residue absorption). Let \<open>cnts\<close> be the counts after the redistribution
  loop, on inputs that passed the validation. If their sum is not the total, the
  residue \<open>total - sum\<close> is added to the last count. If the list so obtained has a
  count of zero or below, wherever it comes from, the function raises; otherwise it
  returns that list.
\<close>

theorem last_word_absorbs_residue:
  assumes "0 < total_codes"
      and "weights \<noteq> []"
      and "0 < sum_list weights"
      and "shares_of total_codes (sum_list weights) weights = Inr shares"
      and "rebalance total_codes shares (initial_counts shares) = Some cnts"
  shows "distribute_codes total_codes weights =
           Some (let absorbed = (if sum_list cnts \<noteq> total_codes
                                 then butlast cnts @ [last cnts + (total_codes - sum_list cnts)]
                                 else cnts)
                 in if list_ex (\<lambda>count. count \<le> 0) absorbed then Inl NonPositiveSegment
                    else Inr absorbed)"
proof -
  have "length cnts = length weights"
    using rebalance_length [OF assms(5)] shares_of_length [OF assms(4)]
    by (simp add: initial_counts_def)
  then have "cnts \<noteq> []"
    using assms(2) by auto
  then show ?thesis
    using assms finish_absorb [of cnts total_codes] by (simp add: distribute_codes_def)
qed

text \<open>
  On Scenario C the loop leaves \<open>[1, 1, 1, 1, 1]\<close>, the residue \<open>-2\<close> goes to the last
  count, and the function raises.
\<close>

theorem last_word_absorbs_residue_witness:
  "(0::int) < 3 \<and> [5, 5, 5, 5, 5 :: int] \<noteq> [] \<and> 0 < sum_list [5, 5, 5, 5, 5 :: int]
   \<and> shares_of 3 (sum_list [5, 5, 5, 5, 5]) [5, 5, 5, 5, 5]
       = Inr [5404319552844595 / 9007199254740992, 5404319552844595 / 9007199254740992,
          5404319552844595 / 9007199254740992, 5404319552844595 / 9007199254740992,
          5404319552844595 / 9007199254740992]
   \<and> rebalance 3 [5404319552844595 / 9007199254740992, 5404319552844595 / 9007199254740992,
          5404319552844595 / 9007199254740992, 5404319552844595 / 9007199254740992,
          5404319552844595 / 9007199254740992]
        (initial_counts [5404319552844595 / 9007199254740992, 5404319552844595 / 9007199254740992,
          5404319552844595 / 9007199254740992, 5404319552844595 / 9007199254740992,
          5404319552844595 / 9007199254740992])
       = Some [1, 1, 1, 1, 1]
   \<and> sum_list [1, 1, 1, 1, 1 :: int] \<noteq> 3
   \<and> butlast [1, 1, 1, 1, 1 :: int] @ [last [1, 1, 1, 1, 1] + (3 - sum_list [1, 1, 1, 1, 1])]
       = [1, 1, 1, 1, - 1]
   \<and> distribute_codes 3 [5, 5, 5, 5, 5] = Some (Inl NonPositiveSegment)"
proof -
  have s: "shares_of 3 (sum_list [5, 5, 5, 5, 5]) [5, 5, 5, 5, 5]
             = Inr [5404319552844595 / 9007199254740992, 5404319552844595 / 9007199254740992,
          5404319552844595 / 9007199254740992, 5404319552844595 / 9007199254740992,
          5404319552844595 / 9007199254740992]"
    by (simp add: model_eval)
  have r: "rebalance 3 [5404319552844595 / 9007199254740992, 5404319552844595 / 9007199254740992,
          5404319552844595 / 9007199254740992, 5404319552844595 / 9007199254740992,
          5404319552844595 / 9007199254740992]
             (initial_counts [5404319552844595 / 9007199254740992, 5404319552844595 / 9007199254740992,
          5404319552844595 / 9007199254740992, 5404319552844595 / 9007199254740992,
          5404319552844595 / 9007199254740992])
             = Some [1, 1, 1, 1, 1]"
    by (simp add: model_eval)
  show ?thesis
    using last_word_absorbs_residue [OF _ _ _ s r] s r by simp
qed

text \<open>
  Claim C7 (Scenario B). \<^verbatim>\<open>_distribute_codes(7, [1, 1, 1, 1, 1])\<close> returns
  \<open>[2, 2, 1, 1, 1]\<close>: the five shares are the same float \<open>1.4\<close>, so the five
  fractional remainders tie, the descending ranking keeps the original index order, and
  the two extra units go to indices 0 and 1.
\<close>

theorem scenario_B:
  "shares_of 7 5 [1, 1, 1, 1, 1] = Inr [3152519739159347 / 2251799813685248, 3152519739159347 / 2251799813685248,
          3152519739159347 / 2251799813685248, 3152519739159347 / 2251799813685248,
          3152519739159347 / 2251799813685248]
   \<and> initial_counts [3152519739159347 / 2251799813685248, 3152519739159347 / 2251799813685248,
          3152519739159347 / 2251799813685248, 3152519739159347 / 2251799813685248,
          3152519739159347 / 2251799813685248] = [1, 1, 1, 1, 1]
   \<and> fractional_of [3152519739159347 / 2251799813685248, 3152519739159347 / 2251799813685248,
          3152519739159347 / 2251799813685248, 3152519739159347 / 2251799813685248,
          3152519739159347 / 2251799813685248]
       = [900719925474099 / 2251799813685248, 900719925474099 / 2251799813685248,
          900719925474099 / 2251799813685248, 900719925474099 / 2251799813685248,
          900719925474099 / 2251799813685248]
   \<and> rank_indices True [900719925474099 / 2251799813685248, 900719925474099 / 2251799813685248,
          900719925474099 / 2251799813685248, 900719925474099 / 2251799813685248,
          900719925474099 / 2251799813685248] = [0, 1, 2, 3, 4]
   \<and> distribute_codes 7 [1, 1, 1, 1, 1] = Some (Inr [2, 2, 1, 1, 1])"
  by (simp add: model_eval)

section \<open>Lower bounds on rounded values\<close>

lemma round_half_even_ge:
  assumes "of_int n \<le> x"
  shows "n \<le> round_half_even x"
proof -
  have "n \<le> \<lfloor>x\<rfloor>"
    using assms by (simp add: le_floor_iff)
  moreover have "\<lfloor>x\<rfloor> \<le> round_half_even x"
    by (simp add: round_half_even_def Let_def)
  ultimately show ?thesis
    by simp
qed

lemma floor_log2_le:
  assumes "0 < x"
  shows "2 powi floor_log2 x \<le> x"
proof (cases "1 \<le> x")
  case True
  define n where "n = \<lfloor>x\<rfloor>"
  have n: "0 < n"
    using True by (simp add: n_def)
  have b: "1 \<le> bitlen n"
    using n bitlen_eq_zero_iff [of n] bitlen_nonneg [of n] by linarith
  have "(2::int) ^ nat (bitlen n - 1) \<le> n"
    using bitlen_bounds [OF n] by simp
  then have "(of_int ((2::int) ^ nat (bitlen n - 1)) :: rat) \<le> of_int n"
    by (simp only: of_int_le_iff)
  then have "(2::rat) ^ nat (bitlen n - 1) \<le> of_int n"
    by simp
  also have "of_int n \<le> x"
    by (simp add: n_def)
  finally show ?thesis
    using True b by (simp add: floor_log2_def n_def power_int_def)
next
  case False
  define c where "c = \<lceil>1 / x\<rceil>"
  have "1 < 1 / x"
    using assms False by simp
  then have c: "0 < c - 1"
    by (simp add: c_def less_ceiling_iff)
  define b where "b = bitlen (c - 1)"
  have b0: "0 \<le> b"
    by (simp add: b_def bitlen_nonneg)
  have "c - 1 < 2 ^ nat b"
    using bitlen_bounds [OF c] by (simp add: b_def)
  then have "c \<le> 2 ^ nat b"
    by simp
  then have "(of_int c :: rat) \<le> of_int (2 ^ nat b)"
    by (simp only: of_int_le_iff)
  then have cb: "(of_int c :: rat) \<le> 2 ^ nat b"
    by simp
  have "1 / x \<le> of_int c"
    by (simp add: c_def)
  then have "1 / x \<le> 2 ^ nat b"
    using cb by (rule order_trans)
  then have "1 / 2 ^ nat b \<le> x"
    using assms by (simp add: field_simps)
  moreover have "floor_log2 x = - b"
    using False by (simp add: floor_log2_def b_def c_def)
  moreover have "(2::rat) powi (- b) = 1 / 2 ^ nat b"
    using b0 by (simp add: power_int_minus_divide power_int_nonneg_exp)
  ultimately show ?thesis
    by simp
qed

lemma fl_ge_pow2:
  assumes "0 < x" and "2 powi k \<le> x" and "- 1074 \<le> k"
  shows "2 powi k \<le> fl x"
proof -
  define e where "e = max (floor_log2 x - 52) (- 1074)"
  define m where "m = round_half_even (x / 2 powi e)"
  have fl: "fl x = of_int m * 2 powi e"
    using assms(1) by (simp add: fl_def e_def m_def Let_def)
  have pe: "(0::rat) < 2 powi e"
    by simp
  show ?thesis
  proof (cases "e \<le> k")
    case True
    have split: "(2::rat) powi k = 2 powi (k - e) * 2 powi e"
      by (simp add: power_int_diff)
    have nat: "(2::rat) powi (k - e) = of_int (2 ^ nat (k - e))"
      using True by (simp add: power_int_nonneg_exp)
    have "(2::rat) powi (k - e) \<le> x / 2 powi e"
      using assms(2) pe by (simp add: split pos_le_divide_eq)
    then have "2 ^ nat (k - e) \<le> m"
      unfolding m_def nat by (rule round_half_even_ge)
    then have "(of_int (2 ^ nat (k - e)) :: rat) \<le> of_int m"
      by (simp only: of_int_le_iff)
    then have "(2::rat) powi (k - e) * 2 powi e \<le> of_int m * 2 powi e"
      using pe unfolding nat by (simp only: mult_le_cancel_right_pos)
    then show ?thesis
      by (simp only: fl split)
  next
    case False
    then have e: "e = floor_log2 x - 52"
      using assms(3) by (simp add: e_def max_def split: if_splits)
    have "(2::rat) powi e \<le> 2 powi floor_log2 x"
      by (rule power_int_increasing) (simp_all add: e)
    also have "\<dots> \<le> x"
      using assms(1) by (rule floor_log2_le)
    finally have "of_int 1 \<le> x / 2 powi e"
      using pe by (simp add: pos_le_divide_eq)
    then have "1 \<le> m"
      unfolding m_def by (rule round_half_even_ge)
    then have "(of_int 1 :: rat) \<le> of_int m"
      by (simp only: of_int_le_iff)
    then have "1 * (2::rat) powi e \<le> of_int m * 2 powi e"
      using pe by (simp only: mult_le_cancel_right_pos of_int_1)
    then have me: "(2::rat) powi e \<le> fl x"
      by (simp only: fl mult_1)
    have "(2::rat) powi k \<le> 2 powi e"
      using False by (intro power_int_increasing) simp_all
    then show ?thesis
      using me by (rule order_trans)
  qed
qed

lemma raw_duration_positive:
  assumes "1 \<le> count" and "raw_duration count = Inr d"
  shows "0 < d"
proof -
  define c where "c = fl (of_int count)"
  define y where "y = fl (c / 50)"
  define m where "m = round_half_even (y * 100)"
  have d: "d = fl (of_int m / 100)"
    using assms(2)
    by (auto simp: raw_duration_def py_float_def py_round2_def FRAME_RATE_HZ_def Let_def
          c_def y_def m_def split: if_splits)
  have "(2::rat) powi 0 \<le> fl (of_int count)"
    using assms(1) by (intro fl_ge_pow2) simp_all
  then have c: "1 \<le> c"
    by (simp add: c_def)
  have "(2::rat) powi (- 6) \<le> fl (c / 50)"
    using c by (intro fl_ge_pow2) (simp_all add: power_int_minus_divide)
  then have y: "1 / 64 \<le> y"
    by (simp add: y_def power_int_minus_divide)
  have "of_int 1 \<le> y * 100"
    using y by simp
  then have m: "1 \<le> m"
    unfolding m_def by (rule round_half_even_ge)
  then have "(1::rat) \<le> of_int m"
    by simp
  then have "(2::rat) powi (- 7) \<le> fl (of_int m / 100)"
    by (intro fl_ge_pow2) (simp_all add: power_int_minus_divide)
  then show ?thesis
    by (simp add: d power_int_minus_divide)
qed

lemma build_loop_durations:
  assumes "build_loop cs offset zs = Inr ws"
  shows "list_all2 (\<lambda>w z. duration_of (snd z) = Inr (duration w)) ws zs"
  using assms
proof (induction zs arbitrary: offset ws)
  case Nil
  then show ?case by simp
next
  case (Cons z zs)
  obtain token count where z: "z = (token, count)"
    by (cases z)
  from Cons.prems z obtain d rest where
    d: "duration_of count = Inr d"
    and rest: "build_loop cs (offset + count) zs = Inr rest"
    and ws: "ws = \<lparr>word = token, duration = d,
                     codes = py_slice cs offset (offset + count)\<rparr> # rest"
    by (auto split: sum.splits)
  show ?case
    using Cons.IH [OF rest] d ws z by simp
qed

lemma duration_of_unclamped:
  assumes "1 \<le> count" and "duration_of count = Inr d"
  shows "raw_duration count = Inr d \<and> 0 < d"
proof -
  from assms(2) obtain d' where r: "raw_duration count = Inr d'"
    and d: "d = (if d' \<le> 0 then py_round2 (fl (1 / FRAME_RATE_HZ)) else d')"
    by (auto simp: duration_of_def split: sum.splits)
  have "0 < d'"
    using assms(1) r by (rule raw_duration_positive)
  then show ?thesis
    using r d by simp
qed

section \<open>The word records\<close>

lemmas build_eval = model_eval build_words_from_codes_def raw_duration_def duration_of_def
  py_slice_def

lemma build_words_scenario_D:
  "build_words_from_codes [7, 3, 9, 4, 8, 2, 6, 1, 5, 0] [''hello'', ''world'']
     = Some (Inr [\<lparr>word = ''hello'', duration = 3602879701896397 / 36028797018963968,
                     codes = [7, 3, 9, 4, 8]\<rparr>,
                  \<lparr>word = ''world'', duration = 3602879701896397 / 36028797018963968,
                     codes = [2, 6, 1, 5, 0]\<rparr>])"
  by (simp add: build_eval)

text \<open>
  Claim C6 (partition). For every non-empty code list and non-empty token list on which
  \<^verbatim>\<open>_build_words_from_codes\<close> returns, the \<open>codes\<close> slices of the returned records,
  concatenated in order, are the input code list: no gap, no overlap, nothing left.
\<close>

theorem partition_round_trip:
  assumes "cs \<noteq> []"
      and "transcript_tokens \<noteq> []"
      and "build_words_from_codes cs transcript_tokens = Some (Inr words)"
  shows "concat (map codes words) = cs"
  using assms(3) by (rule build_words_partition)

text \<open>
  Scenario D of the specification, ten codes and the tokens of "Hello, world!".
\<close>

theorem partition_round_trip_witness:
  "[7, 3, 9, 4, 8, 2, 6, 1, 5, 0 :: int] \<noteq> [] \<and> [''hello'', ''world''] \<noteq> []
   \<and> build_words_from_codes [7, 3, 9, 4, 8, 2, 6, 1, 5, 0] [''hello'', ''world'']
       = Some (Inr [\<lparr>word = ''hello'', duration = 3602879701896397 / 36028797018963968,
                       codes = [7, 3, 9, 4, 8]\<rparr>,
                    \<lparr>word = ''world'', duration = 3602879701896397 / 36028797018963968,
                       codes = [2, 6, 1, 5, 0]\<rparr>])
   \<and> concat (map codes
         [\<lparr>word = ''hello'', duration = 3602879701896397 / 36028797018963968,
             codes = [7, 3, 9, 4, 8]\<rparr>,
          \<lparr>word = ''world'', duration = 3602879701896397 / 36028797018963968,
             codes = [2, 6, 1, 5, 0]\<rparr>])
       = [7, 3, 9, 4, 8, 2, 6, 1, 5, 0]"
  using partition_round_trip [OF _ _ build_words_scenario_D] build_words_scenario_D
  by simp

text \<open>
  Claim C9 (duration clamp). The duration of a record is
  \<^verbatim>\<open>round(count / 50.0, 2)\<close>, replaced by \<^verbatim>\<open>round(1.0 / 50.0, 2)\<close> when that value is zero
  or below (the second conjunct, for any count). In the records that
  \<^verbatim>\<open>_build_words_from_codes\<close> returns every count is at least one, the rounded value
  is positive, and the duration is that value itself: the clamp is not taken.
\<close>

theorem duration_clamp:
  assumes "build_words_from_codes cs transcript_tokens = Some (Inr words)"
  shows "(\<exists>cnts. distribute_codes (int (length cs))
                   (map (\<lambda>token. max 1 (int (length token))) transcript_tokens)
                 = Some (Inr cnts)
              \<and> list_all2 (\<lambda>w count. 1 \<le> count
                              \<and> duration_of count = Inr (duration w)
                              \<and> raw_duration count = Inr (duration w)
                              \<and> 0 < duration w) words cnts)
         \<and> (raw_duration count = Inr d \<longrightarrow>
              duration_of count
                = Inr (if d \<le> 0 then py_round2 (fl (1 / FRAME_RATE_HZ)) else d))"
proof
  let ?weights = "map (\<lambda>token. max 1 (int (length token))) transcript_tokens"
  from assms obtain cnts where
    d: "distribute_codes (int (length cs)) ?weights = Some (Inr cnts)"
    and b: "build_loop cs 0 (zip transcript_tokens cnts) = Inr words"
    by (auto simp: build_words_from_codes_def Let_def split: option.splits sum.splits)
  have pos: "list_all (\<lambda>count. 1 \<le> count) cnts"
    and len: "length cnts = length transcript_tokens"
    using distribute_codes_Inr [OF d] by simp_all
  have l2: "list_all2 (\<lambda>w z. duration_of (snd z) = Inr (duration w)) words
              (zip transcript_tokens cnts)"
    using b by (rule build_loop_durations)
  have lw: "length words = length cnts"
    using list_all2_lengthD [OF l2] len by simp
  have "list_all2 (\<lambda>w count. 1 \<le> count \<and> duration_of count = Inr (duration w)
          \<and> raw_duration count = Inr (duration w) \<and> 0 < duration w) words cnts"
  proof (rule list_all2_all_nthI [OF lw])
    fix i assume i: "i < length words"
    then have i': "i < length cnts" "i < length transcript_tokens"
      using lw len by simp_all
    have c: "1 \<le> cnts ! i"
      using pos i'(1) by (simp add: list_all_length)
    have "duration_of (snd (zip transcript_tokens cnts ! i)) = Inr (duration (words ! i))"
      using list_all2_nthD [OF l2 i] .
    then have du: "duration_of (cnts ! i) = Inr (duration (words ! i))"
      using i' by simp
    show "1 \<le> cnts ! i \<and> duration_of (cnts ! i) = Inr (duration (words ! i))
          \<and> raw_duration (cnts ! i) = Inr (duration (words ! i)) \<and> 0 < duration (words ! i)"
      using c du duration_of_unclamped [OF c du] by simp
  qed
  then show "\<exists>cnts. distribute_codes (int (length cs)) ?weights = Some (Inr cnts)
      \<and> list_all2 (\<lambda>w count. 1 \<le> count \<and> duration_of count = Inr (duration w)
          \<and> raw_duration count = Inr (duration w) \<and> 0 < duration w) words cnts"
    using d by blast
  show "raw_duration count = Inr d \<longrightarrow>
          duration_of count = Inr (if d \<le> 0 then py_round2 (fl (1 / FRAME_RATE_HZ)) else d)"
    by (simp add: duration_of_def)
qed

lemma raw_duration_5: "raw_duration 5 = Inr (3602879701896397 / 36028797018963968)"
  by (simp add: build_eval)

text \<open>
  On Scenario D both words have five codes and the duration \<open>0.1\<close>.
\<close>

theorem duration_clamp_witness:
  "build_words_from_codes [7, 3, 9, 4, 8, 2, 6, 1, 5, 0] [''hello'', ''world'']
     = Some (Inr [\<lparr>word = ''hello'', duration = 3602879701896397 / 36028797018963968,
                     codes = [7, 3, 9, 4, 8]\<rparr>,
                  \<lparr>word = ''world'', duration = 3602879701896397 / 36028797018963968,
                     codes = [2, 6, 1, 5, 0]\<rparr>])
   \<and> raw_duration 5 = Inr (3602879701896397 / 36028797018963968)
   \<and> duration_of 5 = Inr (3602879701896397 / 36028797018963968)
   \<and> (0::rat) < 3602879701896397 / 36028797018963968"
  using duration_clamp [OF build_words_scenario_D, of 5 "3602879701896397 / 36028797018963968"]
    raw_duration_5 build_words_scenario_D
  by simp

section \<open>The ranking of the indices\<close>

lemma enumerate_entry:
  assumes "p \<in> set (enumerate 0 xs)"
  shows "snd p = xs ! fst p" and "fst p < length xs"
  using assms by (simp_all add: in_set_enumerate_eq)

lemma set_py_sorted: "set (py_sorted key reverse xs) = set xs"
  by (simp add: py_sorted_def)

lemma remainders_of_ranking:
  "map (\<lambda>i. fractional ! i) (rank_indices reverse fractional)
     = map snd (py_sorted snd reverse (enumerate 0 fractional))"
  unfolding rank_indices_def map_map
  by (rule map_cong [OF refl]) (simp add: set_py_sorted enumerate_entry(1))

lemma ranking_ascending:
  "sorted (map (\<lambda>i. fractional ! i) (rank_indices False fractional))"
  by (simp add: remainders_of_ranking py_sorted_def sorted_sort_key)

lemma ranking_descending:
  "sorted (rev (map (\<lambda>i. fractional ! i) (rank_indices True fractional)))"
  by (simp add: remainders_of_ranking py_sorted_def rev_map sorted_sort_key)

lemma ranking_permutation:
  "set (rank_indices reverse fractional) = {0..<length fractional}
   \<and> distinct (rank_indices reverse fractional)"
proof
  have "set (rank_indices reverse fractional) = set (map fst (enumerate 0 fractional))"
    by (simp only: rank_indices_def set_map set_py_sorted)
  then show "set (rank_indices reverse fractional) = {0..<length fractional}"
    by simp
  have "distinct (map fst (enumerate 0 fractional))"
    by simp
  then have "distinct (enumerate 0 fractional)" and "inj_on fst (set (enumerate 0 fractional))"
    by (simp_all only: distinct_map)
  then show "distinct (rank_indices reverse fractional)"
    by (simp add: rank_indices_def py_sorted_def distinct_map)
qed

lemma py_sorted_stable:
  "filter (\<lambda>y. key y = k) (py_sorted key reverse xs) = filter (\<lambda>y. key y = k) xs"
  by (simp add: py_sorted_def sort_key_stable rev_filter [symmetric])

lemma ranking_stable:
  "filter (\<lambda>i. fractional ! i = r) (rank_indices reverse fractional)
     = filter (\<lambda>i. fractional ! i = r) [0..<length fractional]"
proof -
  let ?E = "enumerate 0 fractional"
  have same: "filter (\<lambda>p. fractional ! fst p = r) xs = filter (\<lambda>p. snd p = r) xs"
    if "set xs = set ?E" for xs
    by (rule filter_cong [OF refl]) (simp add: that enumerate_entry(1))
  have "filter (\<lambda>i. fractional ! i = r) (rank_indices reverse fractional)
          = map fst (filter (\<lambda>p. fractional ! fst p = r) (py_sorted snd reverse ?E))"
    by (simp add: rank_indices_def filter_map comp_def)
  also have "\<dots> = map fst (filter (\<lambda>p. snd p = r) (py_sorted snd reverse ?E))"
    by (simp only: same [OF set_py_sorted])
  also have "\<dots> = map fst (filter (\<lambda>p. snd p = r) ?E)"
    by (simp only: py_sorted_stable)
  also have "\<dots> = map fst (filter (\<lambda>p. fractional ! fst p = r) ?E)"
    by (simp only: same [OF refl])
  also have "\<dots> = filter (\<lambda>i. fractional ! i = r) (map fst ?E)"
    by (simp only: filter_map comp_def)
  also have "map fst ?E = [0..<length fractional]"
    by simp
  finally show ?thesis .
qed

text \<open>
  When units are handed out, the loop never drops an index: unit \<open>k\<close> goes to the
  ranked position \<open>k mod n\<close>.
\<close>

lemma fold_update_Nil: "fold (\<lambda>k cs. cs[g k := h k cs]) ks [] = []"
  by (induction ks) simp_all

lemma give_units:
  assumes "idx \<noteq> []"
      and "set idx \<subseteq> {..<length cs}"
      and "list_all (\<lambda>count. 0 \<le> count) cs"
  shows "redistribute 1 \<lparr>counts = cs, idx_list = idx, remaining = int m, pointer = p\<rparr>
           = Some \<lparr>counts = fold (\<lambda>k cs. cs[idx ! (k mod length idx)
                                          := cs ! (idx ! (k mod length idx)) + 1])
                                [p..<p + m] cs,
                    idx_list = idx, remaining = 0, pointer = p + m\<rparr>"
  using assms(2,3)
proof (induction m arbitrary: cs p)
  case 0
  then show ?case
    by (simp add: redistribute_stop)
next
  case (Suc m)
  let ?i = "idx ! (p mod length idx)"
  have "p mod length idx < length idx"
    using assms(1) by simp
  then have i: "?i < length cs"
    using Suc.prems(1) nth_mem by blast
  then have pos: "0 \<le> cs ! ?i"
    using Suc.prems(2) by (simp add: list_all_length)
  have body: "loop_body 1 \<lparr>counts = cs, idx_list = idx, remaining = int (Suc m), pointer = p\<rparr>
                = \<lparr>counts = cs[?i := cs ! ?i + 1], idx_list = idx, remaining = int m,
                   pointer = Suc p\<rparr>"
    using pos by (simp add: loop_body_def Let_def)
  have keep: "set idx \<subseteq> {..<length (cs[?i := cs ! ?i + 1])}"
    "list_all (\<lambda>count. 0 \<le> count) (cs[?i := cs ! ?i + 1])"
    using Suc.prems pos set_update_subset_insert [of cs ?i "cs ! ?i + 1"]
    by (auto simp: list_all_iff)
  have "redistribute 1 \<lparr>counts = cs, idx_list = idx, remaining = int (Suc m), pointer = p\<rparr>
          = redistribute 1
              (loop_body 1
                 \<lparr>counts = cs, idx_list = idx, remaining = int (Suc m), pointer = p\<rparr>)"
    by (rule redistribute_continue) (use assms(1) in simp_all)
  also have "\<dots> = redistribute 1 \<lparr>counts = cs[?i := cs ! ?i + 1], idx_list = idx,
                                     remaining = int m, pointer = Suc p\<rparr>"
    by (simp only: body)
  also note Suc.IH [OF keep, of "Suc p"]
  finally have run:
    "redistribute 1 \<lparr>counts = cs, idx_list = idx, remaining = int (Suc m), pointer = p\<rparr>
       = Some \<lparr>counts = fold (\<lambda>k cs. cs[idx ! (k mod length idx)
                                      := cs ! (idx ! (k mod length idx)) + 1])
                            [Suc p..<Suc p + m] (cs[?i := cs ! ?i + 1]),
                idx_list = idx, remaining = 0, pointer = Suc p + m\<rparr>" .
  have up: "[p..<p + Suc m] = p # [Suc p..<Suc p + m]"
    by (subst upt_rec) simp
  show ?case
    unfolding up fold_simps o_apply using run by (simp only: add_Suc_right add_Suc)
qed

text \<open>
  Claim C4 (redistribution ranking), as the code has it. When \<open>delta\<close>, the total minus
  the sum of the initial counts, is not zero, \<^verbatim>\<open>_distribute_codes\<close> runs the loop on
  the initial counts from pointer 0 with an index list \<open>idx\<close> that is the word indices
  ranked by fractional remainder: descending when \<open>delta\<close> is positive, ascending,
  smallest remainder first, when \<open>delta\<close> is negative (the source sorts with
  \<^verbatim>\<open>reverse=delta > 0\<close>), indices of equal remainder in index order. The list is
  walked through \<^verbatim>\<open>idx_list[pointer % len(idx_list)]\<close>, as the last conjunct says of
  every iteration; for a positive \<open>delta\<close> this hands out the units in cycling
  order, unit \<open>k\<close> to the ranked position \<open>k mod n\<close>.
\<close>

theorem ranking_by_fractional_remainder:
  assumes "total_codes - sum_list (initial_counts shares) \<noteq> 0"
  shows "\<exists>idx.
           rebalance total_codes shares (initial_counts shares)
             = map_option counts
                 (redistribute (if 0 < total_codes - sum_list (initial_counts shares)
                                then 1 else - 1)
                    \<lparr>counts = initial_counts shares, idx_list = idx,
                     remaining = \<bar>total_codes - sum_list (initial_counts shares)\<bar>,
                     pointer = 0\<rparr>)
         \<and> set idx = {0..<length shares} \<and> distinct idx
         \<and> (0 < total_codes - sum_list (initial_counts shares) \<longrightarrow>
              sorted (rev (map (\<lambda>i. fractional_of shares ! i) idx)))
         \<and> (total_codes - sum_list (initial_counts shares) < 0 \<longrightarrow>
              sorted (map (\<lambda>i. fractional_of shares ! i) idx))
         \<and> (\<forall>r. filter (\<lambda>i. fractional_of shares ! i = r) idx
                  = filter (\<lambda>i. fractional_of shares ! i = r) [0..<length shares])
         \<and> (0 < total_codes - sum_list (initial_counts shares) \<longrightarrow>
              rebalance total_codes shares (initial_counts shares)
                = Some (fold (\<lambda>k cs. cs[idx ! (k mod length idx)
                                        := cs ! (idx ! (k mod length idx)) + 1])
                          [0..<nat (total_codes - sum_list (initial_counts shares))]
                          (initial_counts shares)))
         \<and> loop_body step st
             = (let i = idx_list st ! (pointer st mod length (idx_list st))
                in if counts st ! i + step \<le> 0
                   then st\<lparr>idx_list := py_pop (idx_list st)
                                          (pointer st mod length (idx_list st))\<rparr>
                   else st\<lparr>counts := (counts st)[i := counts st ! i + step],
                           remaining := remaining st - 1,
                           pointer := pointer st + 1\<rparr>)"
proof -
  define delta where "delta = total_codes - sum_list (initial_counts shares)"
  define idx where "idx = rank_indices (0 < delta) (fractional_of shares)"
  have len: "length (fractional_of shares) = length shares"
    by (simp add: fractional_of_def)
  have reb: "rebalance total_codes shares (initial_counts shares)
               = map_option counts
                   (redistribute (if 0 < delta then 1 else - 1)
                      \<lparr>counts = initial_counts shares, idx_list = idx,
                       remaining = \<bar>delta\<bar>, pointer = 0\<rparr>)"
    using assms
    by (simp add: rebalance_def Let_def delta_def idx_def map_option_case)
  have perm: "set idx = {0..<length shares}" "distinct idx"
    using ranking_permutation [of "0 < delta" "fractional_of shares"]
    by (simp_all add: idx_def len)
  have desc: "sorted (rev (map (\<lambda>i. fractional_of shares ! i) idx))" if "0 < delta"
    using that ranking_descending [of "fractional_of shares"] by (simp add: idx_def)
  have asc: "sorted (map (\<lambda>i. fractional_of shares ! i) idx)" if "delta < 0"
    using that ranking_ascending [of "fractional_of shares"] by (simp add: idx_def)
  have ties: "filter (\<lambda>i. fractional_of shares ! i = r) idx
                = filter (\<lambda>i. fractional_of shares ! i = r) [0..<length shares]" for r
    using ranking_stable [of "fractional_of shares" r "0 < delta"]
    by (simp add: idx_def len)
  have cyc: "rebalance total_codes shares (initial_counts shares)
               = Some (fold (\<lambda>k cs. cs[idx ! (k mod length idx)
                                       := cs ! (idx ! (k mod length idx)) + 1])
                         [0..<nat delta] (initial_counts shares))" if d: "0 < delta"
  proof (cases "shares = []")
    case True
    then have "idx = []"
      using perm(1) by simp
    then have "redistribute (if 0 < delta then 1 else - 1)
                 \<lparr>counts = initial_counts shares, idx_list = idx,
                  remaining = \<bar>delta\<bar>, pointer = 0\<rparr>
               = Some \<lparr>counts = initial_counts shares, idx_list = idx,
                        remaining = \<bar>delta\<bar>, pointer = 0\<rparr>"
      by (simp add: redistribute_stop)
    then have "rebalance total_codes shares (initial_counts shares)
                 = Some (initial_counts shares)"
      by (simp add: reb)
    then show ?thesis
      using True by (simp add: initial_counts_def fold_update_Nil)
  next
    case False
    then have ne: "idx \<noteq> []"
      using perm(1) by auto
    have sub: "set idx \<subseteq> {..<length (initial_counts shares)}"
      using perm(1) by (auto simp: initial_counts_def)
    have nn: "list_all (\<lambda>count. 0 \<le> count) (initial_counts shares)"
      by (simp add: initial_counts_def list_all_iff le_max_iff_disj)
    have "\<bar>delta\<bar> = int (nat delta)"
      using d by simp
    then show ?thesis
      using d give_units [OF ne sub nn, of "nat delta" 0] by (simp add: reb)
  qed
  have body: "loop_body step st
             = (let i = idx_list st ! (pointer st mod length (idx_list st))
                in if counts st ! i + step \<le> 0
                   then st\<lparr>idx_list := py_pop (idx_list st)
                                          (pointer st mod length (idx_list st))\<rparr>
                   else st\<lparr>counts := (counts st)[i := counts st ! i + step],
                           remaining := remaining st - 1,
                           pointer := pointer st + 1\<rparr>)"
    by (simp add: loop_body_def Let_def)
  show ?thesis
    apply (rule exI [of _ idx])
    using reb perm desc asc ties cyc body unfolding delta_def by blast
qed

lemma fractional_of_skewed:
  "fractional_of [1 / 4, 1 / 4, 1 / 4, 5 / 2, 11 / 4] = [1 / 4, 1 / 4, 1 / 4, 1 / 2, 3 / 4]"
  by (simp add: model_eval)

lemma rank_ascending_skewed:
  "rank_indices False [1 / 4, 1 / 4, 1 / 4, 1 / 2, 3 / 4] = [0, 1, 2, 3, 4]"
  by (simp add: model_eval)

lemma rank_descending_skewed:
  "rank_indices True [1 / 4, 1 / 4, 1 / 4, 1 / 2, 3 / 4] = [4, 3, 0, 1, 2]"
  by (simp add: model_eval)

lemma delta_skewed:
  "6 - sum_list (initial_counts [1 / 4, 1 / 4, 1 / 4, 5 / 2, 11 / 4]) = - 1"
  by (simp add: model_eval)

lemma rebalance_skewed:
  "rebalance 6 [1 / 4, 1 / 4, 1 / 4, 5 / 2, 11 / 4]
     (initial_counts [1 / 4, 1 / 4, 1 / 4, 5 / 2, 11 / 4]) = Some [1, 1, 1, 1, 2]"
  by (simp add: model_eval)

text \<open>
  Total 6 and weights \<open>[1, 1, 1, 10, 11]\<close>: the shares are \<open>0.25, 0.25, 0.25, 2.5, 2.75\<close>,
  \<open>delta\<close> is \<open>-1\<close>, the ranking is the ascending \<open>[0, 1, 2, 3, 4]\<close> and the loop
  leaves \<open>[1, 1, 1, 1, 2]\<close>.
\<close>

theorem ranking_by_fractional_remainder_witness:
  "6 - sum_list (initial_counts [1 / 4, 1 / 4, 1 / 4, 5 / 2, 11 / 4]) \<noteq> 0
   \<and> 6 - sum_list (initial_counts [1 / 4, 1 / 4, 1 / 4, 5 / 2, 11 / 4]) < 0
   \<and> (\<exists>idx. rebalance 6 [1 / 4, 1 / 4, 1 / 4, 5 / 2, 11 / 4]
                (initial_counts [1 / 4, 1 / 4, 1 / 4, 5 / 2, 11 / 4])
              = map_option counts
                  (redistribute (- 1)
                     \<lparr>counts = initial_counts [1 / 4, 1 / 4, 1 / 4, 5 / 2, 11 / 4],
                      idx_list = idx, remaining = 1, pointer = 0\<rparr>)
            \<and> set idx = {0..<5} \<and> distinct idx
            \<and> sorted (map (\<lambda>i. fractional_of [1 / 4, 1 / 4, 1 / 4, 5 / 2, 11 / 4] ! i) idx))
   \<and> rank_indices False (fractional_of [1 / 4, 1 / 4, 1 / 4, 5 / 2, 11 / 4]) = [0, 1, 2, 3, 4]
   \<and> rebalance 6 [1 / 4, 1 / 4, 1 / 4, 5 / 2, 11 / 4]
        (initial_counts [1 / 4, 1 / 4, 1 / 4, 5 / 2, 11 / 4]) = Some [1, 1, 1, 1, 2]"
proof -
  let ?S = "[1 / 4, 1 / 4, 1 / 4, 5 / 2, 11 / 4 :: rat]"
  have nz: "6 - sum_list (initial_counts ?S) \<noteq> 0"
    by (simp add: delta_skewed)
  from ranking_by_fractional_remainder [OF nz] obtain idx where
    "rebalance 6 ?S (initial_counts ?S)
       = map_option counts
           (redistribute (if 0 < 6 - sum_list (initial_counts ?S) then 1 else - 1)
              \<lparr>counts = initial_counts ?S, idx_list = idx,
               remaining = \<bar>6 - sum_list (initial_counts ?S)\<bar>, pointer = 0\<rparr>)"
    and "set idx = {0..<length ?S}" and "distinct idx"
    and "6 - sum_list (initial_counts ?S) < 0 \<longrightarrow>
           sorted (map (\<lambda>i. fractional_of ?S ! i) idx)"
    by blast
  then have "\<exists>idx. rebalance 6 ?S (initial_counts ?S)
              = map_option counts
                  (redistribute (- 1)
                     \<lparr>counts = initial_counts ?S, idx_list = idx, remaining = 1,
                      pointer = 0\<rparr>)
            \<and> set idx = {0..<5} \<and> distinct idx
            \<and> sorted (map (\<lambda>i. fractional_of ?S ! i) idx)"
    unfolding delta_skewed by (intro exI [of _ idx]) (simp add: eval_nat_numeral)
  then show ?thesis
    using delta_skewed rebalance_skewed fractional_of_skewed rank_ascending_skewed
    by simp
qed

text \<open>
  Claim C4 as the specification words it, that the descending ranking is reused when
  \<open>delta\<close> is negative, fails on the same input: \<open>delta\<close> is \<open>-1\<close>, the ranking the
  source computes is \<open>[0, 1, 2, 3, 4]\<close> and not the descending \<open>[4, 3, 0, 1, 2]\<close>, and
  the result \<open>[1, 1, 1, 1, 2]\<close> takes the unit from index 3, where the descending
  ranking would have taken it from index 4.
\<close>

theorem descending_ranking_reused_counterexample:
  "shares_of 6 (sum_list [1, 1, 1, 10, 11]) [1, 1, 1, 10, 11]
     = Inr [1 / 4, 1 / 4, 1 / 4, 5 / 2, 11 / 4]
   \<and> 6 - sum_list (initial_counts [1 / 4, 1 / 4, 1 / 4, 5 / 2, 11 / 4]) = - 1
   \<and> fractional_of [1 / 4, 1 / 4, 1 / 4, 5 / 2, 11 / 4] = [1 / 4, 1 / 4, 1 / 4, 1 / 2, 3 / 4]
   \<and> rank_indices (0 < (- 1 :: int)) [1 / 4, 1 / 4, 1 / 4, 1 / 2, 3 / 4] = [0, 1, 2, 3, 4]
   \<and> rank_indices True [1 / 4, 1 / 4, 1 / 4, 1 / 2, 3 / 4] = [4, 3, 0, 1, 2]
   \<and> rank_indices (0 < (- 1 :: int)) [1 / 4, 1 / 4, 1 / 4, 1 / 2, 3 / 4]
       \<noteq> rank_indices True [1 / 4, 1 / 4, 1 / 4, 1 / 2, 3 / 4]
   \<and> distribute_codes 6 [1, 1, 1, 10, 11] = Some (Inr [1, 1, 1, 1, 2])
   \<and> redistribute (- 1)
        \<lparr>counts = [1, 1, 1, 2, 2], idx_list = [4, 3, 0, 1, 2], remaining = 1, pointer = 0\<rparr>
       = Some \<lparr>counts = [1, 1, 1, 2, 1], idx_list = [4, 3, 0, 1, 2], remaining = 0,
                pointer = 1\<rparr>"
  by (simp add: model_eval)

text \<open>
  Claim C8 (determinism). \<^verbatim>\<open>_distribute_codes\<close> has exactly one outcome on each
  input, a returned list or an exception, and the ranking breaks ties by original index
  order whichever the direction of the sort: the indices that share a fractional
  remainder occur in the ranking in increasing order.
\<close>

theorem ranking_ties_keep_index_order:
  "filter (\<lambda>i. fractional ! i = r) (rank_indices reverse fractional)
     = filter (\<lambda>i. fractional ! i = r) [0..<length fractional]
   \<and> (\<exists>!outcome. distribute_codes total_codes weights = Some outcome)"
  using ranking_stable [of fractional r reverse]
    distribute_codes_returns_or_raises [of total_codes weights]
  by auto

end
